theory Spec2Isabelle
  imports Complex_Main "HOL-Library.Multiset" "HOL-Library.Log_Nat"
begin

section \<open>JavaScript numbers\<close>

text \<open>
  Every JavaScript number is an IEEE 754 double. The selection code of
  \<^verbatim>\<open>daily-photo/photo-selection.js\<close> works on integers, where the sums, products
  and remainders of doubles are exact below \<open>2^53\<close>, and it divides. A division
  rounds, and so does the product of its result: the pseudo-random draw
  \<^verbatim>\<open>Math.floor(seededRandom() * (i + 1))\<close> divides the generator state by 233280 and
  multiplies the quotient by \<open>i + 1\<close>. The rounding is modelled: a finite double is
  the rational number it denotes, and \<open>fl\<close> rounds a rational to the nearest
  number with a 53-bit significand, ties to the even significand. No operation of
  the code leaves the range of the normal doubles (the magnitudes lie between
  \<open>1/233280\<close> and the array length), so the exponent is left unbounded.
\<close>

definition round_half_even :: "rat \<Rightarrow> int" where
  "round_half_even x =
     (let f = \<lfloor>x\<rfloor>; d = x - of_int f
      in if d < 1 / 2 then f
         else if 1 / 2 < d then f + 1
         else if even f then f else f + 1)"

definition binade :: "rat \<Rightarrow> int" where
  \<comment> \<open>for \<open>0 < x\<close>: the exponent \<open>e\<close> with \<open>2^e \<le> x < 2^(e+1)\<close>\<close>
  "binade x =
     (case quotient_of x of (p, q) \<Rightarrow>
        let e = bitlen p - bitlen q
        in if power_int 2 e \<le> x then e else e - 1)"

definition fl :: "rat \<Rightarrow> rat" where
  "fl x =
     (if x = 0 then 0
      else let u = power_int 2 (binade \<bar>x\<bar> - 52)
           in of_int (round_half_even (x / u)) * u)"

definition js_div :: "rat \<Rightarrow> rat \<Rightarrow> rat" where
  \<comment> \<open>\<^verbatim>\<open>x / y\<close> for a divisor other than zero\<close>
  "js_div x y = fl (x / y)"

definition js_mul :: "rat \<Rightarrow> rat \<Rightarrow> rat" where
  "js_mul x y = fl (x * y)"

definition js_rem :: "int \<Rightarrow> int \<Rightarrow> int" where
  \<comment> \<open>\<^verbatim>\<open>a % b\<close> on integers, \<open>b \<noteq> 0\<close>: the remainder of the truncating division,
      with the sign of the dividend (a negative zero reads as index 0)\<close>
  "js_rem a b = sgn a * (\<bar>a\<bar> mod \<bar>b\<bar>)"

section \<open>Array objects\<close>

text \<open>
  An array is an object: a table of properties and a \<^verbatim>\<open>length\<close>. A property key that
  is an integer is modelled by that integer; the keys \<open>0 .. length - 1\<close> are the
  elements, and a negative integer is a key like any other, outside the elements.
  Reading a key that was never written gives \<^verbatim>\<open>undefined\<close>, which is \<open>None\<close> here, so
  a stored \<^verbatim>\<open>undefined\<close> and a missing property read alike.
\<close>

record 'a jsarray =
  props :: "int \<Rightarrow> 'a option"
  len :: nat

definition js_get :: "'a jsarray \<Rightarrow> int \<Rightarrow> 'a option" where
  \<comment> \<open>\<^verbatim>\<open>arr[k]\<close>\<close>
  "js_get arr k = props arr k"

definition js_set :: "'a jsarray \<Rightarrow> int \<Rightarrow> 'a option \<Rightarrow> 'a jsarray" where
  \<comment> \<open>\<^verbatim>\<open>arr[k] = v\<close>: writing an index at or past \<^verbatim>\<open>length\<close> extends the array\<close>
  "js_set arr k v =
     arr\<lparr>props := (props arr)(k := v),
         len := (if int (len arr) \<le> k then nat k + 1 else len arr)\<rparr>"

definition array_of :: "'a option list \<Rightarrow> 'a jsarray" where
  \<comment> \<open>the array whose elements are the given values and that has no other property\<close>
  "array_of ys =
     \<lparr>props = (\<lambda>k. if 0 \<le> k \<and> k < int (length ys) then ys ! nat k else None),
      len = length ys\<rparr>"

definition collection :: "'a list \<Rightarrow> 'a jsarray" where
  \<comment> \<open>a collection of items: every element is defined\<close>
  "collection xs = array_of (map Some xs)"

definition to_list :: "'a jsarray \<Rightarrow> 'a option list" where
  \<comment> \<open>the elements in index order, as the array iterator yields them\<close>
  "to_list arr = map (\<lambda>n. props arr (int n)) [0..<len arr]"

definition spread :: "'a jsarray \<Rightarrow> 'a jsarray" where
  \<comment> \<open>\<^verbatim>\<open>[...array]\<close>\<close>
  "spread array = array_of (to_list array)"

definition swap :: "'a jsarray \<Rightarrow> int \<Rightarrow> int \<Rightarrow> 'a jsarray" where
  \<comment> \<open>\<^verbatim>\<open>[arr[i], arr[j]] = [arr[j], arr[i]]\<close>: both reads, then the write to \<open>i\<close>,
      then the write to \<open>j\<close>\<close>
  "swap arr i j =
     (let x = js_get arr j; y = js_get arr i
      in js_set (js_set arr i x) j y)"

section \<open>The seeded shuffle\<close>

text \<open>
  The variable \<^verbatim>\<open>random\<close> of \<^verbatim>\<open>seededShuffle\<close> holds an integer: the seed at first, a
  remainder of magnitude below 233280 after the first step. The step is exact as
  long as \<open>random * 9301 + 49297\<close> stays below \<open>2^53\<close>, which covers every seed of
  magnitude up to \<open>9 * 10^11\<close> and so every seed that \<^verbatim>\<open>getCycleSeed\<close> computes from a
  date. The loop passes the array and the generator state along.
\<close>

definition lcg_step :: "int \<Rightarrow> int" where
  \<comment> \<open>\<^verbatim>\<open>random = (random * 9301 + 49297) % 233280\<close>\<close>
  "lcg_step random = js_rem (random * 9301 + 49297) 233280"

definition seededRandom :: "int \<Rightarrow> int \<times> rat" where
  \<comment> \<open>the closure \<^verbatim>\<open>seededRandom\<close>: the new value of \<^verbatim>\<open>random\<close> and the number returned\<close>
  "seededRandom random =
     (let random' = lcg_step random in (random', js_div (of_int random') 233280))"

function fisher_yates :: "'a jsarray \<Rightarrow> int \<Rightarrow> int \<Rightarrow> 'a jsarray" where
  "fisher_yates arr random i =
     (if 0 < i then
        (case seededRandom random of (random', x) \<Rightarrow>
           let j = \<lfloor>js_mul x (of_int (i + 1))\<rfloor>
           in fisher_yates (swap arr i j) random' (i - 1))
      else arr)"
  by pat_completeness auto
termination
  by (relation "measure (\<lambda>(arr, random, i). nat i)") auto

declare fisher_yates.simps [simp del]

definition seededShuffle :: "'a jsarray \<Rightarrow> int \<Rightarrow> 'a jsarray" where
  "seededShuffle array seed =
     (let arr = spread array
      in fisher_yates arr seed (int (len arr) - 1))"

section \<open>Cycle arithmetic and the daily selection\<close>

text \<open>
  A \<^verbatim>\<open>Date\<close> is modelled by its time value \<^verbatim>\<open>date.getTime()\<close>, an integer number of
  milliseconds of magnitude at most \<open>8.64 * 10^15\<close> (an invalid date, whose time
  value is \<^verbatim>\<open>NaN\<close>, is not modelled). On that range \<^verbatim>\<open>Math.floor\<close> of the double
  quotient by 86400000 is the floored integer quotient, and so is
  \<^verbatim>\<open>Math.floor\<close> of the quotient of the day count by an array length: the
  rounded quotient never reaches the next integer (\<open>js_floor_days\<close> and
  \<open>js_floor_cycle\<close> below). The functions are therefore written with the integer
  quotient. A result that is not a finite number (the array length 0 gives
  \<^verbatim>\<open>NaN\<close> or an infinity) is \<open>None\<close>.
\<close>

type_synonym date = int

definition daysSinceEpoch :: "date \<Rightarrow> int" where
  \<comment> \<open>\<^verbatim>\<open>Math.floor(date.getTime() / (1000 * 60 * 60 * 24))\<close>\<close>
  "daysSinceEpoch date = date div (1000 * 60 * 60 * 24)"

definition getCycleSeed :: "date \<Rightarrow> nat \<Rightarrow> int option" where
  "getCycleSeed date arrayLength =
     (if arrayLength = 0 then None
      else Some (daysSinceEpoch date div int arrayLength))"

definition getDayInCycle :: "date \<Rightarrow> nat \<Rightarrow> int option" where
  "getDayInCycle date arrayLength =
     (if arrayLength = 0 then None
      else Some (js_rem (daysSinceEpoch date) (int arrayLength)))"

datatype 'a selection = Null | Undefined | Item 'a

definition read_value :: "'a option \<Rightarrow> 'a selection" where
  "read_value v = (case v of None \<Rightarrow> Undefined | Some x \<Rightarrow> Item x)"

definition selectByDate :: "'a jsarray \<Rightarrow> date \<Rightarrow> 'a selection" where
  \<comment> \<open>past the guard the array length is positive, so seed and day index are integers;
      the last case is never taken\<close>
  "selectByDate array date =
     (if len array = 0 then Null
      else
        (case (getCycleSeed date (len array), getDayInCycle date (len array)) of
           (Some seed, Some dayIndex) \<Rightarrow>
             read_value (js_get (seededShuffle array seed) dayIndex)
         | _ \<Rightarrow> Undefined))"

section \<open>The same functions over a store of array objects\<close>

text \<open>
  The caller's array and the copy made by \<^verbatim>\<open>[...array]\<close> are two objects. To
  speak about which of them a call writes to, the functions are given once more
  over a store: a table of array objects by reference and the next unused
  reference. Every read and write of \<^verbatim>\<open>arr\<close> goes through the reference.
\<close>

record 'a heap =
  cells :: "nat \<Rightarrow> 'a jsarray"
  fresh :: nat

definition h_alloc :: "'a heap \<Rightarrow> 'a jsarray \<Rightarrow> 'a heap \<times> nat" where
  "h_alloc h obj = (h\<lparr>cells := (cells h)(fresh h := obj), fresh := Suc (fresh h)\<rparr>, fresh h)"

definition h_get :: "'a heap \<Rightarrow> nat \<Rightarrow> int \<Rightarrow> 'a option" where
  "h_get h ref k = js_get (cells h ref) k"

definition h_set :: "'a heap \<Rightarrow> nat \<Rightarrow> int \<Rightarrow> 'a option \<Rightarrow> 'a heap" where
  "h_set h ref k v = h\<lparr>cells := (cells h)(ref := js_set (cells h ref) k v)\<rparr>"

definition h_swap :: "'a heap \<Rightarrow> nat \<Rightarrow> int \<Rightarrow> int \<Rightarrow> 'a heap" where
  "h_swap h arr i j =
     (let x = h_get h arr j; y = h_get h arr i
      in h_set (h_set h arr i x) arr j y)"

function fisher_yates_heap :: "'a heap \<Rightarrow> nat \<Rightarrow> int \<Rightarrow> int \<Rightarrow> 'a heap" where
  "fisher_yates_heap h arr random i =
     (if 0 < i then
        (case seededRandom random of (random', x) \<Rightarrow>
           let j = \<lfloor>js_mul x (of_int (i + 1))\<rfloor>
           in fisher_yates_heap (h_swap h arr i j) arr random' (i - 1))
      else h)"
  by pat_completeness auto
termination
  by (relation "measure (\<lambda>(h, arr, random, i). nat i)") auto

declare fisher_yates_heap.simps [simp del]

definition seededShuffle_heap :: "'a heap \<Rightarrow> nat \<Rightarrow> int \<Rightarrow> 'a heap \<times> nat" where
  \<comment> \<open>the store after the call and the reference returned\<close>
  "seededShuffle_heap h array seed =
     (case h_alloc h (spread (cells h array)) of (h1, arr) \<Rightarrow>
        (fisher_yates_heap h1 arr seed (int (len (cells h1 arr)) - 1), arr))"

definition selectByDate_heap :: "'a heap \<Rightarrow> nat \<Rightarrow> date \<Rightarrow> 'a heap \<times> 'a selection" where
  "selectByDate_heap h array date =
     (if len (cells h array) = 0 then (h, Null)
      else
        (case (getCycleSeed date (len (cells h array)),
               getDayInCycle date (len (cells h array))) of
           (Some seed, Some dayIndex) \<Rightarrow>
             (case seededShuffle_heap h array seed of (h', shuffled) \<Rightarrow>
                (h', read_value (h_get h' shuffled dayIndex)))
         | _ \<Rightarrow> (h, Undefined)))"

section \<open>The shuffle as the specification words it\<close>

text \<open>
  The specification's SeededShuffler: the state starts at the seed, a step sets
  \<open>state = (state * 9301 + 49297) mod 233280\<close> and yields the fraction
  \<open>state / 233280\<close> in \<open>[0, 1)\<close>, and for \<open>i\<close> from \<open>length - 1\<close> down to 1 the
  elements at \<open>i\<close> and \<open>j = floor (fraction * (i + 1))\<close> are swapped, in a copy of
  the sequence. The modulus is the mathematical one, as the stated range of the
  fraction requires; quotient and product are taken in double precision, the
  arithmetic the specification's determinism contract names.
\<close>

definition ref_step :: "int \<Rightarrow> int" where
  "ref_step state = (state * 9301 + 49297) mod 233280"

definition ref_fraction :: "int \<Rightarrow> rat" where
  "ref_fraction state = js_div (of_int state) 233280"

function ref_fisher_yates :: "'a list \<Rightarrow> int \<Rightarrow> int \<Rightarrow> 'a list" where
  "ref_fisher_yates xs state i =
     (if 0 < i then
        let state' = ref_step state;
            j = \<lfloor>js_mul (ref_fraction state') (of_int (i + 1))\<rfloor>
        in ref_fisher_yates (xs[nat i := xs ! nat j, nat j := xs ! nat i]) state' (i - 1)
      else xs)"
  by pat_completeness auto
termination
  by (relation "measure (\<lambda>(xs, state, i). nat i)") auto

declare ref_fisher_yates.simps [simp del]

definition ref_shuffle :: "'a list \<Rightarrow> int \<Rightarrow> 'a list" where
  "ref_shuffle xs seed = ref_fisher_yates xs seed (int (length xs) - 1)"

section \<open>Facts about the rounding of doubles\<close>

lemma round_half_even_upper: "of_int (round_half_even x) \<le> x + 1 / 2"
proof -
  define f where "f = \<lfloor>x\<rfloor>"
  have "of_int f \<le> x" "x < of_int f + 1"
    unfolding f_def by linarith+
  then show ?thesis
    unfolding round_half_even_def Let_def f_def [symmetric] by auto
qed

lemma round_half_even_lower: "x - 1 / 2 \<le> of_int (round_half_even x)"
proof -
  define f where "f = \<lfloor>x\<rfloor>"
  have "of_int f \<le> x" "x < of_int f + 1"
    unfolding f_def by linarith+
  then show ?thesis
    unfolding round_half_even_def Let_def f_def [symmetric] by auto
qed

lemma round_half_even_nonneg: "0 \<le> x \<Longrightarrow> 0 \<le> round_half_even x"
  unfolding round_half_even_def Let_def by (auto intro: add_nonneg_nonneg)

lemma round_half_even_of_int [simp]: "round_half_even (of_int n) = n"
  unfolding round_half_even_def Let_def by simp

lemma binade_bounds:
  assumes "0 < x"
  shows "power_int 2 (binade x) \<le> x" and "x < power_int 2 (binade x + 1)"
proof -
  obtain p q where pq: "quotient_of x = (p, q)" by (cases "quotient_of x")
  have q: "0 < q" using pq quotient_of_denom_pos by blast
  have x: "x = of_int p / of_int q" using pq quotient_of_div by blast
  have p: "0 < p" using assms q unfolding x by (simp add: zero_less_divide_iff)
  define e where "e = bitlen p - bitlen q"
  have b: "binade x = (if power_int 2 e \<le> x then e else e - 1)"
    unfolding binade_def pq e_def by (simp add: Let_def)
  have bp: "1 \<le> bitlen p" "1 \<le> bitlen q"
    using p q bitlen_eq_zero_iff[of p] bitlen_eq_zero_iff[of q] bitlen_nonneg[of p] bitlen_nonneg[of q]
    by linarith+
  have P: "(2::rat) powi (bitlen p - 1) \<le> of_int p" "of_int p < (2::rat) powi (bitlen p)"
  proof -
    have "2 ^ nat (bitlen p - 1) \<le> p" "p < 2 ^ nat (bitlen p)"
      using bitlen_bounds[OF p] by auto
    then have "(of_int (2 ^ nat (bitlen p - 1)) :: rat) \<le> of_int p" "(of_int p :: rat) < of_int (2 ^ nat (bitlen p))"
      by (simp_all only: of_int_le_iff of_int_less_iff)
    then show "(2::rat) powi (bitlen p - 1) \<le> of_int p" "of_int p < (2::rat) powi (bitlen p)"
      using bp by (simp_all add: power_int_def)
  qed
  have Q: "(2::rat) powi (bitlen q - 1) \<le> of_int q" "of_int q < (2::rat) powi (bitlen q)"
  proof -
    have "2 ^ nat (bitlen q - 1) \<le> q" "q < 2 ^ nat (bitlen q)"
      using bitlen_bounds[OF q] by auto
    then have "(of_int (2 ^ nat (bitlen q - 1)) :: rat) \<le> of_int q" "(of_int q :: rat) < of_int (2 ^ nat (bitlen q))"
      by (simp_all only: of_int_le_iff of_int_less_iff)
    then show "(2::rat) powi (bitlen q - 1) \<le> of_int q" "of_int q < (2::rat) powi (bitlen q)"
      using bp by (simp_all add: power_int_def)
  qed
  have qpos: "(0::rat) < of_int q" using q by simp
  have lo: "(2::rat) powi (e - 1) \<le> x"
  proof -
    have "(2::rat) powi (e - 1) * of_int q \<le> 2 powi (e - 1) * 2 powi (bitlen q)"
      using Q(2) by (intro mult_left_mono) auto
    also have "\<dots> = 2 powi (bitlen p - 1)"
      unfolding e_def by (simp add: power_int_add [symmetric])
    also have "\<dots> \<le> of_int p" by (rule P(1))
    finally show ?thesis unfolding x using qpos by (simp add: pos_le_divide_eq)
  qed
  have hi: "x < (2::rat) powi (e + 1)"
  proof -
    have "of_int p < (2::rat) powi (bitlen p)" by (rule P(2))
    also have "\<dots> = 2 powi (e + 1) * 2 powi (bitlen q - 1)"
      unfolding e_def by (simp add: power_int_add [symmetric])
    also have "\<dots> \<le> 2 powi (e + 1) * of_int q"
      using Q(1) by (intro mult_left_mono) auto
    finally show ?thesis unfolding x using qpos by (simp add: pos_divide_less_eq)
  qed
  show "power_int 2 (binade x) \<le> x" using lo b by auto
  show "x < power_int 2 (binade x + 1)" using hi b by (auto simp: not_le)
qed


lemma round_half_even_minus: "round_half_even (- x) = - round_half_even x"
proof (cases "x \<in> \<int>")
  case True
  then obtain n where "x = of_int n" by (auto elim: Ints_cases)
  then have "- x = of_int (- n)" by simp
  then show ?thesis unfolding \<open>x = of_int n\<close> by (simp only: round_half_even_of_int)
next
  case False
  define f where "f = \<lfloor>x\<rfloor>"
  have "of_int f \<noteq> x" using False by (metis Ints_of_int)
  moreover have "of_int f \<le> x" "x < of_int f + 1" unfolding f_def by linarith+
  ultimately have f: "of_int f < x" "x < of_int f + 1" by simp_all
  have m: "\<lfloor>- x\<rfloor> = - f - 1"
    using f by (intro floor_unique) auto
  have ev: "even (- f - 1) \<longleftrightarrow> odd f" by simp
  show ?thesis
    unfolding round_half_even_def Let_def m f_def [symmetric] ev
    using f by (auto simp: field_simps)
qed

lemma fl_zero [simp]: "fl 0 = 0"
  by (simp add: fl_def)

lemma fl_minus: "fl (- x) = - fl x"
  by (simp add: fl_def Let_def round_half_even_minus)

lemma fl_nonneg:
  assumes "0 \<le> x"
  shows "0 \<le> fl x"
proof (cases "x = 0")
  case True
  then show ?thesis by simp
next
  case False
  define u :: rat where "u = 2 powi (binade \<bar>x\<bar> - 52)"
  have "0 < u" unfolding u_def by simp
  then have "0 \<le> x / u" using assms by simp
  then have "0 \<le> round_half_even (x / u)" by (rule round_half_even_nonneg)
  then have "(0::rat) \<le> of_int (round_half_even (x / u)) * u"
    using \<open>0 < u\<close> by simp
  then show ?thesis using False unfolding fl_def u_def by (simp add: Let_def)
qed

lemma fl_error:
  assumes "0 < x"
  shows "\<bar>fl x - x\<bar> \<le> x / 2 ^ 53"
proof -
  define u :: rat where "u = 2 powi (binade x - 52)"
  have u: "0 < u" unfolding u_def by simp
  have ux: "u * 2 ^ 52 \<le> x"
  proof -
    have "u = 2 powi (binade x) / 2 powi 52"
      unfolding u_def by (rule power_int_diff) simp
    then have "u * 2 ^ 52 = 2 powi (binade x)" by simp
    also have "\<dots> \<le> x" using binade_bounds(1) [OF assms] .
    finally show ?thesis .
  qed
  have flx: "fl x = of_int (round_half_even (x / u)) * u"
    using assms unfolding fl_def u_def by (simp add: Let_def)
  have "\<bar>of_int (round_half_even (x / u)) - x / u\<bar> \<le> 1 / 2"
    using round_half_even_upper [of "x / u"] round_half_even_lower [of "x / u"] by linarith
  then have "\<bar>of_int (round_half_even (x / u)) - x / u\<bar> * u \<le> 1 / 2 * u"
    using u by (intro mult_right_mono) auto
  moreover have "\<bar>of_int (round_half_even (x / u)) - x / u\<bar> * u = \<bar>fl x - x\<bar>"
  proof -
    have "\<bar>of_int (round_half_even (x / u)) - x / u\<bar> * u
        = \<bar>of_int (round_half_even (x / u)) - x / u\<bar> * \<bar>u\<bar>"
      using u by simp
    also have "\<dots> = \<bar>(of_int (round_half_even (x / u)) - x / u) * u\<bar>"
      by (rule abs_mult [symmetric])
    also have "(of_int (round_half_even (x / u)) - x / u) * u = fl x - x"
      using u unfolding flx by (simp add: left_diff_distrib)
    finally show ?thesis .
  qed
  ultimately have "\<bar>fl x - x\<bar> \<le> u / 2" by simp
  also have "\<dots> \<le> x / 2 ^ 53" using ux by (simp add: field_simps)
  finally show ?thesis .
qed

lemma fl_upper:
  assumes "0 \<le> x"
  shows "fl x \<le> x * (1 + 1 / 2 ^ 53)"
proof (cases "x = 0")
  case True
  then show ?thesis by simp
next
  case False
  then have "\<bar>fl x - x\<bar> \<le> x / 2 ^ 53" using assms by (intro fl_error) simp
  then have "fl x \<le> x + x / 2 ^ 53" by linarith
  then show ?thesis by (simp add: algebra_simps)
qed

lemma fl_lower:
  assumes "0 \<le> x"
  shows "x * (1 - 1 / 2 ^ 53) \<le> fl x"
proof (cases "x = 0")
  case True
  then show ?thesis by simp
next
  case False
  then have "\<bar>fl x - x\<bar> \<le> x / 2 ^ 53" using assms by (intro fl_error) simp
  then have "x - x / 2 ^ 53 \<le> fl x" by linarith
  then show ?thesis by (simp add: algebra_simps)
qed

section \<open>Facts about the generator\<close>

lemma js_rem_nonneg: "0 \<le> a \<Longrightarrow> 0 < b \<Longrightarrow> js_rem a b = a mod b"
  by (cases "a = 0") (simp_all add: js_rem_def)

lemma js_rem_abs_less: "b \<noteq> 0 \<Longrightarrow> \<bar>js_rem a b\<bar> < \<bar>b\<bar>"
  by (simp add: js_rem_def abs_mult abs_sgn_eq)

lemma lcg_step_ref: "- 5 \<le> random \<Longrightarrow> lcg_step random = ref_step random"
  by (simp add: lcg_step_def ref_step_def js_rem_nonneg)

lemma ref_step_range: "0 \<le> ref_step state" "ref_step state < 233280"
  by (simp_all add: ref_step_def)

lemma lcg_step_range:
  "- 5 \<le> random \<Longrightarrow> 0 \<le> lcg_step random" "- 5 \<le> random \<Longrightarrow> lcg_step random < 233280"
  by (simp_all add: lcg_step_ref ref_step_range)

lemma fraction_range:
  assumes "0 \<le> r" "r < 233280"
  shows "0 \<le> js_div (of_int r) 233280"
    and "js_div (of_int r) 233280 \<le> 233279 / 233280 * (1 + 1 / 2 ^ 53)"
    and "js_div (of_int r) 233280 < 1"
proof -
  define x :: rat where "x = of_int r / 233280"
  have "r \<le> 233279" using assms by simp
  then have "(of_int r :: rat) \<le> of_int 233279" by (simp only: of_int_le_iff)
  then have x: "0 \<le> x" "x \<le> 233279 / 233280"
    using assms unfolding x_def by simp_all
  show "0 \<le> js_div (of_int r) 233280"
    unfolding js_div_def x_def [symmetric] using x(1) by (rule fl_nonneg)
  have "fl x \<le> x * (1 + 1 / 2 ^ 53)" using x(1) by (rule fl_upper)
  also have "\<dots> \<le> 233279 / 233280 * (1 + 1 / 2 ^ 53)"
    using x(2) by (intro mult_right_mono) simp_all
  finally show u: "js_div (of_int r) 233280 \<le> 233279 / 233280 * (1 + 1 / 2 ^ 53)"
    unfolding js_div_def x_def .
  show "js_div (of_int r) 233280 < 1"
    by (rule le_less_trans [OF u]) simp
qed

lemma draw_range:
  assumes "0 \<le> r" "r < 233280" "0 < i"
  shows "0 \<le> \<lfloor>js_mul (js_div (of_int r) 233280) (of_int (i + 1))\<rfloor>"
    and "\<lfloor>js_mul (js_div (of_int r) 233280) (of_int (i + 1))\<rfloor> \<le> i"
proof -
  define c :: rat where "c = 233279 / 233280 * (1 + 1 / 2 ^ 53)"
  define f where "f = js_div (of_int r) 233280"
  define n :: rat where "n = of_int (i + 1)"
  have n: "0 < n" unfolding n_def using assms(3) by simp
  have f: "0 \<le> f" "f \<le> c"
    unfolding f_def c_def using fraction_range [OF assms(1,2)] by simp_all
  have y: "0 \<le> f * n" using f(1) n by simp
  have "0 \<le> fl (f * n)" using y by (rule fl_nonneg)
  then show "0 \<le> \<lfloor>js_mul (js_div (of_int r) 233280) (of_int (i + 1))\<rfloor>"
    unfolding js_mul_def f_def [symmetric] n_def [symmetric] by simp
  have "fl (f * n) \<le> f * n * (1 + 1 / 2 ^ 53)" using y by (rule fl_upper)
  also have "\<dots> = f * ((1 + 1 / 2 ^ 53) * n)" by simp
  also have "\<dots> \<le> c * ((1 + 1 / 2 ^ 53) * n)"
    using f(2) n by (intro mult_right_mono) simp_all
  also have "\<dots> = (c * (1 + 1 / 2 ^ 53)) * n" by simp
  also have "\<dots> < 1 * n"
    using n by (intro mult_strict_right_mono) (simp_all add: c_def)
  finally have "fl (f * n) < of_int (i + 1)" unfolding n_def by simp
  then have "\<lfloor>fl (f * n)\<rfloor> < i + 1" by (simp only: floor_less_iff)
  then show "\<lfloor>js_mul (js_div (of_int r) 233280) (of_int (i + 1))\<rfloor> \<le> i"
    unfolding js_mul_def f_def [symmetric] n_def [symmetric] by simp
qed

section \<open>Where double arithmetic is exact, and where it is not\<close>

text \<open>
  Integers below \<open>2^53\<close> are doubles, and the floor of a rounded quotient of two
  such integers is their floored quotient. The draw is another matter: the
  product of a rounded fraction can fall just below the integer that exact
  arithmetic gives (\<open>draw_rounds_down\<close>), from arrays of 45 elements on.
\<close>

lemma fl_error_abs: "\<bar>fl x - x\<bar> \<le> \<bar>x\<bar> / 2 ^ 53"
proof (cases "0 < x")
  case True
  then show ?thesis using fl_error [of x] by simp
next
  case False
  show ?thesis
  proof (cases "x = 0")
    case True
    then show ?thesis by simp
  next
    case False
    with \<open>\<not> 0 < x\<close> have "0 < - x" by simp
    then have "\<bar>fl (- x) - (- x)\<bar> \<le> (- x) / 2 ^ 53" by (rule fl_error)
    moreover have "\<bar>fl (- x) - (- x)\<bar> = \<bar>fl x - x\<bar>" by (simp add: fl_minus)
    ultimately show ?thesis using \<open>0 < - x\<close> by simp
  qed
qed

lemma fl_of_int_pos:
  assumes "0 < n" "n < 2 ^ 53"
  shows "fl (of_int n) = of_int n"
proof -
  define x :: rat where "x = of_int n"
  have "(of_int n :: rat) < of_int (2 ^ 53)" using assms(2) by (simp only: of_int_less_iff)
  then have x2: "x < 2 ^ 53" unfolding x_def by simp
  have x: "0 < x" unfolding x_def using assms(1) by simp
  define e where "e = binade x"
  have "(2::rat) powi e \<le> x" "x < 2 powi (e + 1)"
    unfolding e_def using binade_bounds [OF x] by simp_all
  then have "(2::rat) powi e < 2 powi 53" using x2 by simp
  then have "e < 53" by (rule power_int_le_imp_less_exp [rotated]) simp_all
  then have e: "e \<le> 52" by simp
  define m where "m = nat (52 - e)"
  have u: "(2::rat) powi (e - 52) = 1 / 2 ^ m"
  proof -
    have "e - 52 = - int m" using e by (simp add: m_def)
    then show ?thesis by (simp add: power_int_minus_divide)
  qed
  have "x / (1 / 2 ^ m) = of_int (n * 2 ^ m)" by (simp add: x_def)
  then have "round_half_even (x / (1 / 2 ^ m)) = n * 2 ^ m"
    by (simp only: round_half_even_of_int)
  then have "fl x = of_int (n * 2 ^ m) * (1 / 2 ^ m)"
    using x unfolding fl_def by (simp add: Let_def e_def [symmetric] u)
  then show ?thesis by (simp add: x_def)
qed

lemma fl_of_int:
  assumes "\<bar>n\<bar> < 2 ^ 53"
  shows "fl (of_int n) = of_int n"
proof -
  consider "n = 0" | "0 < n" | "n < 0" by linarith
  then show ?thesis
  proof cases
    case 1
    then show ?thesis by simp
  next
    case 2
    then show ?thesis using assms by (intro fl_of_int_pos) simp_all
  next
    case 3
    then have "fl (of_int (- n)) = of_int (- n)" using assms by (intro fl_of_int_pos) simp_all
    then show ?thesis by (simp add: fl_minus)
  qed
qed


lemma js_floor_div:
  assumes "\<bar>a\<bar> < 2 ^ 53" and "0 < b"
  shows "\<lfloor>js_div (of_int a) (of_int b)\<rfloor> = a div b"
proof -
  define q where "q = a div b"
  define r where "r = a mod b"
  define x :: rat where "x = of_int a / of_int b"
  have a: "a = q * b + r" by (simp add: q_def r_def)
  have r: "0 \<le> r" "r < b" using assms(2) by (simp_all add: r_def)
  have b: "(0::rat) < of_int b" using assms(2) by simp
  have x: "x = of_int q + of_int r / of_int b"
    unfolding x_def a using b by (simp add: field_simps)
  show ?thesis
  proof (cases "r = 0")
    case True
    have "\<bar>q\<bar> \<le> \<bar>a\<bar>"
    proof -
      have "\<bar>q\<bar> * 1 \<le> \<bar>q\<bar> * \<bar>b\<bar>" using assms(2) by (intro mult_left_mono) simp_all
      also have "\<dots> = \<bar>a\<bar>" using True by (simp add: a abs_mult)
      finally show ?thesis by simp
    qed
    then have "\<bar>q\<bar> < 2 ^ 53" using assms(1) by simp
    then have "fl (of_int q) = of_int q" by (rule fl_of_int)
    then show ?thesis
      unfolding js_div_def x_def [symmetric] x True q_def [symmetric] by simp
  next
    case False
    then have "1 \<le> r" "r \<le> b - 1" using r by simp_all
    then have "(of_int 1 :: rat) \<le> of_int r" "(of_int r :: rat) \<le> of_int (b - 1)"
      by (simp_all only: of_int_le_iff)
    then have "1 / of_int b \<le> of_int r / (of_int b :: rat)"
      "of_int r / (of_int b :: rat) \<le> (of_int b - 1) / of_int b"
      using b by (simp_all add: divide_right_mono)
    moreover have "(of_int b - 1) / of_int b = 1 - 1 / (of_int b :: rat)"
      using b by (simp add: diff_divide_distrib)
    ultimately have lo: "of_int q + 1 / of_int b \<le> x"
      and hi: "x \<le> of_int q + 1 - 1 / of_int b"
      unfolding x by simp_all
    have "(of_int \<bar>a\<bar> :: rat) < of_int (2 ^ 53)" using assms(1) by (simp only: of_int_less_iff)
    then have "\<bar>of_int a :: rat\<bar> < 2 ^ 53" by simp
    then have "\<bar>x\<bar> < 2 ^ 53 / of_int b"
      unfolding x_def using b by (simp add: divide_strict_right_mono)
    then have "\<bar>x\<bar> / 2 ^ 53 < 1 / of_int b" by (simp add: field_simps)
    then have "\<bar>fl x - x\<bar> < 1 / of_int b"
      using fl_error_abs [of x] by linarith
    then have "of_int q < fl x" "fl x < of_int q + 1"
      using lo hi by linarith+
    then have "\<lfloor>fl x\<rfloor> = q" by (intro floor_unique) simp_all
    then show ?thesis unfolding js_div_def x_def q_def .
  qed
qed

lemma js_floor_days:
  "\<bar>date\<bar> \<le> 8640000000000000 \<Longrightarrow>
   \<lfloor>js_div (of_int date) (1000 * 60 * 60 * 24)\<rfloor> = daysSinceEpoch date"
  using js_floor_div [of date "1000 * 60 * 60 * 24"] by (simp add: daysSinceEpoch_def)

lemma js_floor_cycle:
  "\<bar>days\<bar> < 2 ^ 53 \<Longrightarrow> 0 < n \<Longrightarrow> \<lfloor>js_div (of_int days) (of_nat n)\<rfloor> = days div int n"
  using js_floor_div [of days "int n"] by simp

lemma draw_rounds_down:
  "\<lfloor>js_mul (js_div 67392 233280) 45\<rfloor> = 12" and "(67392 * 45) div 233280 = (13::int)"
  by code_simp+

section \<open>Facts about array objects\<close>

lemma len_array_of [simp]: "len (array_of ys) = length ys"
  by (simp add: array_of_def)

lemma props_array_of:
  "props (array_of ys) k = (if 0 \<le> k \<and> k < int (length ys) then ys ! nat k else None)"
  by (simp add: array_of_def)

lemma to_list_array_of [simp]: "to_list (array_of ys) = ys"
  by (rule nth_equalityI) (simp_all add: to_list_def props_array_of)

lemma spread_array_of [simp]: "spread (array_of ys) = array_of ys"
  by (simp add: spread_def)

lemma len_spread [simp]: "len (spread array) = len array"
  by (simp add: spread_def to_list_def)

lemma len_collection [simp]: "len (collection xs) = length xs"
  by (simp add: collection_def)

lemma swap_array_of:
  assumes "0 \<le> j" "j \<le> i" "i < int (length ys)"
  shows "swap (array_of ys) i j = array_of (ys[nat i := ys ! nat j, nat j := ys ! nat i])"
proof (rule jsarray.equality)
  show "len (swap (array_of ys) i j) = len (array_of (ys[nat i := ys ! nat j, nat j := ys ! nat i]))"
    using assms by (simp add: swap_def js_set_def js_get_def Let_def)
  show "props (swap (array_of ys) i j) = props (array_of (ys[nat i := ys ! nat j, nat j := ys ! nat i]))"
  proof
    fix k
    show "props (swap (array_of ys) i j) k
        = props (array_of (ys[nat i := ys ! nat j, nat j := ys ! nat i])) k"
      using assms
      by (auto simp: swap_def js_set_def js_get_def Let_def props_array_of nth_list_update
          nat_eq_iff)
  qed
qed simp


section \<open>The loop on a proper array is the reference loop\<close>

lemma ref_draw_range:
  assumes "0 < i"
  shows "0 \<le> \<lfloor>js_mul (ref_fraction (ref_step state)) (of_int (i + 1))\<rfloor>"
    and "\<lfloor>js_mul (ref_fraction (ref_step state)) (of_int (i + 1))\<rfloor> \<le> i"
  unfolding ref_fraction_def
  using draw_range [OF ref_step_range assms, of state] by simp_all

lemma length_ref_fisher_yates [simp]:
  "length (ref_fisher_yates xs state i) = length xs"
proof (induction "nat i" arbitrary: i xs state)
  case 0
  then show ?case by (simp add: ref_fisher_yates.simps [of xs state i])
next
  case (Suc n)
  then have "n = nat (i - 1)" "0 < i" by linarith+
  then show ?case
    using Suc.hyps(1) by (simp add: ref_fisher_yates.simps [of xs state i] Let_def)
qed

lemma mset_ref_fisher_yates:
  "i < int (length xs) \<Longrightarrow> mset (ref_fisher_yates xs state i) = mset xs"
proof (induction "nat i" arbitrary: i xs state)
  case 0
  then show ?case by (simp add: ref_fisher_yates.simps [of xs state i])
next
  case (Suc n)
  then have i: "n = nat (i - 1)" "0 < i" by linarith+
  define j where "j = \<lfloor>js_mul (ref_fraction (ref_step state)) (of_int (i + 1))\<rfloor>"
  have j: "0 \<le> j" "j \<le> i" unfolding j_def using ref_draw_range [OF i(2)] by simp_all
  define xs' where "xs' = xs[nat i := xs ! nat j, nat j := xs ! nat i]"
  have "nat i < length xs" "nat j < length xs" using Suc.prems i(2) j by linarith+
  then have m: "mset xs' = mset xs" unfolding xs'_def by (simp add: mset_swap)
  have step: "ref_fisher_yates xs state i = ref_fisher_yates xs' (ref_step state) (i - 1)"
    using i(2) by (subst ref_fisher_yates.simps) (simp add: Let_def j_def xs'_def)
  have "i - 1 < int (length xs')" using Suc.prems by (simp add: xs'_def)
  then have "mset (ref_fisher_yates xs' (ref_step state) (i - 1)) = mset xs'"
    using Suc.hyps(1) [OF i(1)] by simp
  then show ?case unfolding step m .
qed

lemma map_ref_fisher_yates:
  "i < int (length xs) \<Longrightarrow>
   ref_fisher_yates (map f xs) state i = map f (ref_fisher_yates xs state i)"
proof (induction "nat i" arbitrary: i xs state)
  case 0
  then show ?case
    by (simp add: ref_fisher_yates.simps [of xs state i]
        ref_fisher_yates.simps [of "map f xs" state i])
next
  case (Suc n)
  then have i: "n = nat (i - 1)" "0 < i" by linarith+
  define j where "j = \<lfloor>js_mul (ref_fraction (ref_step state)) (of_int (i + 1))\<rfloor>"
  have j: "0 \<le> j" "j \<le> i" unfolding j_def using ref_draw_range [OF i(2)] by simp_all
  define xs' where "xs' = xs[nat i := xs ! nat j, nat j := xs ! nat i]"
  have r: "nat i < length xs" "nat j < length xs" using Suc.prems i(2) j by linarith+
  have "i - 1 < int (length xs')" using Suc.prems by (simp add: xs'_def)
  then have "ref_fisher_yates (map f xs') (ref_step state) (i - 1)
      = map f (ref_fisher_yates xs' (ref_step state) (i - 1))"
    using Suc.hyps(1) [OF i(1)] by simp
  moreover have "(map f xs)[nat i := map f xs ! nat j, nat j := map f xs ! nat i] = map f xs'"
    using r by (simp add: xs'_def map_update)
  moreover have "ref_fisher_yates xs state i = ref_fisher_yates xs' (ref_step state) (i - 1)"
    using i(2) by (subst ref_fisher_yates.simps) (simp add: Let_def j_def xs'_def)
  moreover have "ref_fisher_yates (map f xs) state i
      = ref_fisher_yates ((map f xs)[nat i := map f xs ! nat j, nat j := map f xs ! nat i])
          (ref_step state) (i - 1)"
    using i(2) by (subst ref_fisher_yates.simps) (simp add: Let_def j_def)
  ultimately show ?case by simp
qed

lemma fisher_yates_array_of:
  "- 5 \<le> random \<Longrightarrow> i < int (length ys) \<Longrightarrow>
   fisher_yates (array_of ys) random i = array_of (ref_fisher_yates ys random i)"
proof (induction "nat i" arbitrary: i ys random)
  case 0
  then show ?case
    by (simp add: ref_fisher_yates.simps [of ys random i]
        fisher_yates.simps [of "array_of ys" random i])
next
  case (Suc n)
  then have i: "n = nat (i - 1)" "0 < i" by linarith+
  have st: "lcg_step random = ref_step random" using Suc.prems(1) by (rule lcg_step_ref)
  define j where "j = \<lfloor>js_mul (ref_fraction (ref_step random)) (of_int (i + 1))\<rfloor>"
  have j: "0 \<le> j" "j \<le> i" unfolding j_def using ref_draw_range [OF i(2)] by simp_all
  define ys' where "ys' = ys[nat i := ys ! nat j, nat j := ys ! nat i]"
  have sw: "swap (array_of ys) i j = array_of ys'"
    unfolding ys'_def using j Suc.prems(2) by (rule swap_array_of)
  have "- 5 \<le> ref_step random" using ref_step_range(1) [of random] by linarith
  moreover have "i - 1 < int (length ys')" using Suc.prems(2) by (simp add: ys'_def)
  ultimately have "fisher_yates (array_of ys') (ref_step random) (i - 1)
      = array_of (ref_fisher_yates ys' (ref_step random) (i - 1))"
    using Suc.hyps(1) [OF i(1)] by simp
  moreover have "ref_fisher_yates ys random i = ref_fisher_yates ys' (ref_step random) (i - 1)"
    using i(2) by (subst ref_fisher_yates.simps) (simp add: Let_def j_def ys'_def)
  moreover have "fisher_yates (array_of ys) random i
      = fisher_yates (swap (array_of ys) i j) (ref_step random) (i - 1)"
    using i(2)
    by (subst fisher_yates.simps)
      (simp add: seededRandom_def st Let_def j_def ref_fraction_def)
  ultimately show ?case by (simp add: sw)
qed

lemma seededShuffle_ref:
  assumes "- 5 \<le> seed"
  shows "seededShuffle array seed = array_of (ref_shuffle (to_list array) seed)"
proof -
  have "int (length (to_list array)) - 1 < int (length (to_list array))" by simp
  then show ?thesis
    unfolding seededShuffle_def ref_shuffle_def spread_def Let_def
    using assms by (simp add: fisher_yates_array_of)
qed

lemma to_list_collection [simp]: "to_list (collection xs) = map Some xs"
  by (simp add: collection_def)

lemma seededShuffle_collection:
  assumes "- 5 \<le> seed"
  shows "seededShuffle (collection xs) seed = collection (ref_shuffle xs seed)"
  unfolding seededShuffle_ref [OF assms] collection_def ref_shuffle_def
  by (simp add: map_ref_fisher_yates)

section \<open>Facts about the store\<close>

lemma fisher_yates_heap_cells:
  "fisher_yates_heap h arr random i
     = h\<lparr>cells := (cells h)(arr := fisher_yates (cells h arr) random i)\<rparr>"
proof (induction "nat i" arbitrary: i h random)
  case 0
  then show ?case
    by (simp add: fisher_yates_heap.simps [of h arr random i]
        fisher_yates.simps [of "cells h arr" random i])
next
  case (Suc n)
  then have i: "n = nat (i - 1)" "0 < i" by linarith+
  obtain random' x where sr: "seededRandom random = (random', x)"
    by (cases "seededRandom random")
  define j where "j = \<lfloor>js_mul x (of_int (i + 1))\<rfloor>"
  have sw: "h_swap h arr i j = h\<lparr>cells := (cells h)(arr := swap (cells h arr) i j)\<rparr>"
    by (simp add: h_swap_def swap_def h_set_def h_get_def Let_def)
  have "fisher_yates_heap h arr random i
      = fisher_yates_heap (h_swap h arr i j) arr random' (i - 1)"
    using i(2) by (subst fisher_yates_heap.simps) (simp add: sr Let_def j_def)
  moreover have "fisher_yates (cells h arr) random i
      = fisher_yates (swap (cells h arr) i j) random' (i - 1)"
    using i(2) by (subst fisher_yates.simps) (simp add: sr Let_def j_def)
  ultimately show ?case
    using Suc.hyps(1) [OF i(1), of "h_swap h arr i j" random'] by (simp add: sw)
qed

lemma seededShuffle_heap_eq:
  "seededShuffle_heap h array seed
     = (h\<lparr>cells := (cells h)(fresh h := seededShuffle (cells h array) seed),
           fresh := Suc (fresh h)\<rparr>, fresh h)"
  by (simp add: seededShuffle_heap_def h_alloc_def fisher_yates_heap_cells
      seededShuffle_def Let_def)

lemma selectByDate_heap_value:
  "snd (selectByDate_heap h array date) = selectByDate (cells h array) date"
  by (simp add: selectByDate_heap_def selectByDate_def seededShuffle_heap_eq h_get_def
      split: option.splits)

lemma selectByDate_heap_frame:
  "array < fresh h \<Longrightarrow> cells (fst (selectByDate_heap h array date)) array = cells h array"
  by (simp add: selectByDate_heap_def seededShuffle_heap_eq split: option.splits)

lemma selectByDate_heap_fresh:
  "fresh h \<le> fresh (fst (selectByDate_heap h array date))"
  by (simp add: selectByDate_heap_def seededShuffle_heap_eq split: option.splits)

lemma fisher_yates_short: "i \<le> 0 \<Longrightarrow> fisher_yates arr random i = arr"
  by (simp add: fisher_yates.simps [of arr random i])

lemma seededShuffle_short:
  "length xs \<le> 1 \<Longrightarrow> seededShuffle (collection xs) seed = collection xs"
  by (simp add: seededShuffle_def Let_def collection_def fisher_yates_short)

section \<open>The scenario of day 10 with three items\<close>

lemma draw_77200_3: "\<lfloor>js_mul (js_div 77200 233280) 3\<rfloor> = 0"
  by code_simp

lemma draw_50657_2: "\<lfloor>js_mul (js_div 50657 233280) 2\<rfloor> = 0"
  by code_simp

lemma seededRandom_3: "seededRandom 3 = (77200, js_div 77200 233280)"
  by (simp add: seededRandom_def lcg_step_def js_rem_def)

lemma seededRandom_77200: "seededRandom 77200 = (50657, js_div 50657 233280)"
  by (simp add: seededRandom_def lcg_step_def js_rem_def)

lemma shuffle_abc_3:
  "seededShuffle (collection [a, b, c]) 3 = collection [b, c, a]"
  by (simp add: seededShuffle_def collection_def fisher_yates.simps seededRandom_3
      seededRandom_77200 draw_77200_3 draw_50657_2 swap_array_of)


lemma js_get_collection:
  "js_get (collection xs) k = (if 0 \<le> k \<and> k < int (length xs) then Some (xs ! nat k) else None)"
  by (auto simp: js_get_def collection_def props_array_of)

text \<open>
  C7: for a collection of length 3 and a date whose day count since the epoch is
  10, the code computes the cycle seed \<open>floor (10 / 3) = 3\<close> and the position
  \<open>10 mod 3 = 1\<close>, and \<open>selectByDate\<close> returns the element at index 1 of the
  shuffle of the collection with seed 3. That shuffle is the fixed permutation
  that puts the items in the order second, third, first, so the selection is the
  third item.
\<close>

theorem selectByDate_day_10_of_3:
  assumes "length xs = 3" and "daysSinceEpoch date = 10"
  shows "getCycleSeed date (length xs) = Some 3
       \<and> getDayInCycle date (length xs) = Some 1
       \<and> selectByDate (collection xs) date
           = read_value (js_get (seededShuffle (collection xs) 3) 1)
       \<and> seededShuffle (collection xs) 3 = collection [xs ! 1, xs ! 2, xs ! 0]
       \<and> selectByDate (collection xs) date = Item (xs ! 2)"
proof -
  obtain a b c where xs: "xs = [a, b, c]"
    using assms(1) by (auto simp: length_Suc_conv eval_nat_numeral)
  have seed: "getCycleSeed date (length xs) = Some 3"
    by (simp add: getCycleSeed_def assms)
  have pos: "getDayInCycle date (length xs) = Some 1"
    by (simp add: getDayInCycle_def assms js_rem_def)
  have sel: "selectByDate (collection xs) date
      = read_value (js_get (seededShuffle (collection xs) 3) 1)"
    using seed pos assms(1) by (simp add: selectByDate_def)
  have sh: "seededShuffle (collection xs) 3 = collection [xs ! 1, xs ! 2, xs ! 0]"
    unfolding xs by (simp add: shuffle_abc_3)
  have "selectByDate (collection xs) date = Item (xs ! 2)"
    unfolding sel sh by (simp add: js_get_collection read_value_def)
  with seed pos sel sh show ?thesis by simp
qed

theorem selectByDate_day_10_of_3_witness:
  "length [''A'', ''B'', ''C''] = 3 \<and> daysSinceEpoch 864000000 = 10
   \<and> getCycleSeed 864000000 (length [''A'', ''B'', ''C'']) = Some 3
   \<and> getDayInCycle 864000000 (length [''A'', ''B'', ''C'']) = Some 1
   \<and> seededShuffle (collection [''A'', ''B'', ''C'']) 3 = collection [''B'', ''C'', ''A'']
   \<and> selectByDate (collection [''A'', ''B'', ''C'']) 864000000 = Item ''C''"
proof -
  have d: "daysSinceEpoch 864000000 = 10" by (simp add: daysSinceEpoch_def)
  have l: "length [''A'', ''B'', ''C''] = 3" by simp
  show ?thesis
    using selectByDate_day_10_of_3 [OF l d] d
    by (simp add: js_get_collection read_value_def)
qed

section \<open>Empty and short collections\<close>

text \<open>
  C6: for every date, \<open>selectByDate\<close> applied to an empty collection returns the
  "none" result, \<^verbatim>\<open>null\<close>: a value, not a fault.
\<close>

theorem selectByDate_empty: "selectByDate (collection []) date = Null"
  by (simp add: selectByDate_def)

text \<open>
  C8: for every seed, \<open>seededShuffle\<close> applied to a collection of length 0 or 1
  returns a copy of the input with its contents unchanged: the array returned
  has the elements of the input and nothing else, it is another object than the
  input, and the input still holds the same elements.
\<close>

theorem seededShuffle_short_identity:
  assumes "length xs \<le> 1" and "array < fresh h" and "cells h array = collection xs"
  shows "seededShuffle (collection xs) seed = collection xs
       \<and> cells (fst (seededShuffle_heap h array seed)) (snd (seededShuffle_heap h array seed))
           = collection xs
       \<and> snd (seededShuffle_heap h array seed) \<noteq> array
       \<and> cells (fst (seededShuffle_heap h array seed)) array = collection xs"
  using assms by (simp add: seededShuffle_heap_eq seededShuffle_short)

theorem seededShuffle_short_identity_witness:
  "length [''A''] \<le> 1
   \<and> seededShuffle (collection [''A'']) 7 = collection [''A'']
   \<and> cells (fst (seededShuffle_heap \<lparr>cells = (\<lambda>r. collection [''A'']), fresh = 1\<rparr> 0 7))
        (snd (seededShuffle_heap \<lparr>cells = (\<lambda>r. collection [''A'']), fresh = 1\<rparr> 0 7))
       = collection [''A'']
   \<and> snd (seededShuffle_heap \<lparr>cells = (\<lambda>r. collection [''A'']), fresh = 1\<rparr> 0 7) \<noteq> 0"
  using seededShuffle_short_identity
    [of "[''A'']" 0 "\<lparr>cells = (\<lambda>r. collection [''A'']), fresh = 1\<rparr>" 7]
  by simp

section \<open>Effects on the store\<close>

text \<open>
  C9: \<open>seededShuffle\<close> never mutates its input: for every array and seed, after
  the call the input array is unchanged, as is every other array that existed
  before the call, and the array returned is a newly allocated object, distinct
  from the input, that holds the shuffle.
\<close>

theorem seededShuffle_no_mutation:
  assumes "array < fresh h"
  shows "cells (fst (seededShuffle_heap h array seed)) array = cells h array
       \<and> (\<forall>r < fresh h. cells (fst (seededShuffle_heap h array seed)) r = cells h r)
       \<and> snd (seededShuffle_heap h array seed) = fresh h
       \<and> snd (seededShuffle_heap h array seed) \<noteq> array
       \<and> cells (fst (seededShuffle_heap h array seed)) (snd (seededShuffle_heap h array seed))
           = seededShuffle (cells h array) seed"
  using assms by (simp add: seededShuffle_heap_eq)

theorem seededShuffle_no_mutation_witness:
  "(0::nat) < fresh \<lparr>cells = (\<lambda>r. collection [''A'', ''B'', ''C'']), fresh = 1\<rparr>
   \<and> cells (fst (seededShuffle_heap
         \<lparr>cells = (\<lambda>r. collection [''A'', ''B'', ''C'']), fresh = 1\<rparr> 0 3)) 0
       = collection [''A'', ''B'', ''C'']
   \<and> snd (seededShuffle_heap
         \<lparr>cells = (\<lambda>r. collection [''A'', ''B'', ''C'']), fresh = 1\<rparr> 0 3) = 1"
  using seededShuffle_no_mutation
    [of 0 "\<lparr>cells = (\<lambda>r. collection [''A'', ''B'', ''C'']), fresh = 1\<rparr>" 3]
  by simp

text \<open>
  C5: \<open>selectByDate\<close> is deterministic: for every array and date, a second call
  on the store the first call left behind returns what the first returned, and
  a call in any other store, on any array with the same contents, returns it
  too. The result depends on the contents of the array and on the date alone.
\<close>

theorem selectByDate_deterministic:
  assumes "array < fresh h" and "cells g other = cells h array"
  shows "snd (selectByDate_heap (fst (selectByDate_heap h array date)) array date)
           = snd (selectByDate_heap h array date)
       \<and> snd (selectByDate_heap g other date) = snd (selectByDate_heap h array date)
       \<and> snd (selectByDate_heap h array date) = selectByDate (cells h array) date"
  using assms by (simp add: selectByDate_heap_value selectByDate_heap_frame)

theorem selectByDate_deterministic_witness:
  "(0::nat) < fresh \<lparr>cells = (\<lambda>r. collection [''A'', ''B'', ''C'']), fresh = 1\<rparr>
   \<and> snd (selectByDate_heap
         (fst (selectByDate_heap
            \<lparr>cells = (\<lambda>r. collection [''A'', ''B'', ''C'']), fresh = 1\<rparr> 0 864000000))
         0 864000000)
       = snd (selectByDate_heap
            \<lparr>cells = (\<lambda>r. collection [''A'', ''B'', ''C'']), fresh = 1\<rparr> 0 864000000)
   \<and> snd (selectByDate_heap
         \<lparr>cells = (\<lambda>r. collection [''A'', ''B'', ''C'']), fresh = 4\<rparr> 2 864000000)
       = snd (selectByDate_heap
            \<lparr>cells = (\<lambda>r. collection [''A'', ''B'', ''C'']), fresh = 1\<rparr> 0 864000000)"
  using selectByDate_deterministic
    [of 0 "\<lparr>cells = (\<lambda>r. collection [''A'', ''B'', ''C'']), fresh = 1\<rparr>"
        "\<lparr>cells = (\<lambda>r. collection [''A'', ''B'', ''C'']), fresh = 4\<rparr>" 2 864000000]
  by simp

section \<open>Dates before the epoch\<close>

lemma getCycleSeed_floor:
  "0 < n \<Longrightarrow> getCycleSeed date n = Some (daysSinceEpoch date div int n)"
  by (simp add: getCycleSeed_def)

lemma getDayInCycle_nonneg:
  "0 < n \<Longrightarrow> 0 \<le> daysSinceEpoch date \<Longrightarrow>
   getDayInCycle date n = Some (daysSinceEpoch date mod int n)"
  by (simp add: getDayInCycle_def js_rem_nonneg)

lemma js_rem_negative:
  assumes "a < 0" "0 < b" "\<not> b dvd a"
  shows "js_rem a b = a mod b - b"
proof -
  have "(- a) mod b = b - a mod b"
    using assms by (simp add: zmod_zminus1_eq_if mod_eq_0_iff_dvd)
  then show ?thesis using assms by (simp add: js_rem_def)
qed

lemma getDayInCycle_negative:
  assumes "0 < n" "daysSinceEpoch date < 0" "\<not> int n dvd daysSinceEpoch date"
  shows "getDayInCycle date n = Some (daysSinceEpoch date mod int n - int n)"
  using assms by (simp add: getDayInCycle_def js_rem_negative)

lemma props_swap:
  "props (swap arr i j) k = Some x \<Longrightarrow> \<exists>k'. props arr k' = Some x"
  by (auto simp: swap_def js_set_def js_get_def Let_def split: if_splits)

lemma props_fisher_yates:
  "props (fisher_yates arr random i) k = Some x \<Longrightarrow> \<exists>k'. props arr k' = Some x"
proof (induction "nat i" arbitrary: i arr random)
  case 0
  then show ?case by (auto simp: fisher_yates.simps [of arr random i])
next
  case (Suc n)
  then have i: "n = nat (i - 1)" "0 < i" by linarith+
  obtain random' y where sr: "seededRandom random = (random', y)"
    by (cases "seededRandom random")
  define j where "j = \<lfloor>js_mul y (of_int (i + 1))\<rfloor>"
  have "fisher_yates arr random i = fisher_yates (swap arr i j) random' (i - 1)"
    using i(2) by (subst fisher_yates.simps) (simp add: sr Let_def j_def)
  then have "\<exists>k'. props (swap arr i j) k' = Some x"
    using Suc.hyps(1) [OF i(1), of "swap arr i j" random'] Suc.prems by simp
  then obtain k' where "props (swap arr i j) k' = Some x" ..
  then show ?case by (rule props_swap)
qed

lemma js_get_seededShuffle_collection:
  assumes "js_get (seededShuffle (collection xs) seed) k = Some x"
  shows "x \<in> set xs"
proof -
  have "\<exists>k'. props (collection xs) k' = Some x"
    using assms props_fisher_yates [of "collection xs" seed _ k x]
    by (simp add: seededShuffle_def Let_def js_get_def collection_def)
  then show ?thesis
    by (auto simp: collection_def props_array_of split: if_splits)
qed


text \<open>
  C4 says that for every date and every \<open>N > 0\<close> the position in the cycle is
  the floored remainder of the day count by \<open>N\<close>, in \<open>[0, N)\<close> also for dates
  before 1970, and that the cycle seed is the floored quotient. The seed is
  (\<open>getCycleSeed_floor\<close>), and so is the position from 1970 on
  (\<open>getDayInCycle_nonneg\<close>). Before 1970 the code's \<^verbatim>\<open>%\<close> gives the truncated
  remainder: at the last day of 1969, with three items, the position computed is
  \<open>-1\<close> where the floored remainder is 2.
\<close>

theorem getDayInCycle_before_epoch:
  "daysSinceEpoch (- 86400000) = - 1
   \<and> getCycleSeed (- 86400000) 3 = Some (- 1)
   \<and> getDayInCycle (- 86400000) 3 = Some (- 1)
   \<and> daysSinceEpoch (- 86400000) mod 3 = 2"
  by (simp add: daysSinceEpoch_def getCycleSeed_def getDayInCycle_def js_rem_def)

text \<open>
  C10 says that for a non-empty collection of length \<open>N\<close> and a day count that
  is negative and not a multiple of \<open>N\<close>, the day index is negative and the
  selection is an undefined value that is neither an element of the collection
  nor \<^verbatim>\<open>null\<close>. The last part fails: with two items and the day count \<open>-11\<close> the
  seed is \<open>-6\<close>, the generator state turns negative, the shuffle draws \<open>j = -1\<close>
  and stores the second item under the key \<open>-1\<close>, which is the day index read.
\<close>

theorem negative_day_selects_item:
  "daysSinceEpoch (- 950400000) = - 11
   \<and> \<not> int (length [''A'', ''B'']) dvd daysSinceEpoch (- 950400000)
   \<and> getCycleSeed (- 950400000) (length [''A'', ''B'']) = Some (- 6)
   \<and> getDayInCycle (- 950400000) (length [''A'', ''B'']) = Some (- 1)
   \<and> selectByDate (collection [''A'', ''B'']) (- 950400000) = Item ''B''
   \<and> ''B'' \<in> set [''A'', ''B'']"
  by code_simp

text \<open>
  C10 as amended: for a non-empty collection of length \<open>N\<close> and a day count that
  is negative and not a multiple of \<open>N\<close>, the day index is the truncated
  remainder, a number in \<open>(-N, 0)\<close>, and \<open>selectByDate\<close> returns what the shuffled
  array holds under that negative key. The result is never \<^verbatim>\<open>null\<close>. It is
  \<^verbatim>\<open>undefined\<close> whenever the day count is at least \<open>-5 N\<close> (the cycle seed is at
  least \<open>-5\<close>), and otherwise it is \<^verbatim>\<open>undefined\<close> or an item of the collection.
\<close>

theorem selectByDate_negative_day:
  assumes "xs \<noteq> []"
    and "daysSinceEpoch date < 0"
    and "\<not> int (length xs) dvd daysSinceEpoch date"
  shows "(\<exists>k. getDayInCycle date (length xs) = Some k \<and> - int (length xs) < k \<and> k < 0
            \<and> selectByDate (collection xs) date
                = read_value (js_get (seededShuffle (collection xs)
                    (daysSinceEpoch date div int (length xs))) k))
       \<and> selectByDate (collection xs) date \<noteq> Null
       \<and> (selectByDate (collection xs) date = Undefined
            \<or> (\<exists>x \<in> set xs. selectByDate (collection xs) date = Item x))
       \<and> (- 5 * int (length xs) \<le> daysSinceEpoch date
            \<longrightarrow> selectByDate (collection xs) date = Undefined)"
proof -
  define n where "n = int (length xs)"
  define d where "d = daysSinceEpoch date"
  define k where "k = d mod n - n"
  have n: "0 < n" using assms(1) by (simp add: n_def)
  have len: "0 < length xs" using assms(1) by simp
  have pos: "getDayInCycle date (length xs) = Some k"
    unfolding k_def n_def d_def using len assms(2,3) by (rule getDayInCycle_negative)
  have "d mod n \<noteq> 0" using assms(3) by (simp add: d_def n_def mod_eq_0_iff_dvd)
  moreover have "0 \<le> d mod n" "d mod n < n" using n by simp_all
  ultimately have k: "- n < k" "k < 0" unfolding k_def by linarith+
  have seed: "getCycleSeed date (length xs) = Some (d div n)"
    unfolding d_def n_def using len by (rule getCycleSeed_floor)
  have sel: "selectByDate (collection xs) date
      = read_value (js_get (seededShuffle (collection xs) (d div n)) k)"
    using len seed pos by (simp add: selectByDate_def)
  have notnull: "selectByDate (collection xs) date \<noteq> Null"
    unfolding sel by (simp add: read_value_def split: option.splits)
  have item: "selectByDate (collection xs) date = Undefined
      \<or> (\<exists>x \<in> set xs. selectByDate (collection xs) date = Item x)"
  proof (cases "js_get (seededShuffle (collection xs) (d div n)) k")
    case None
    then show ?thesis unfolding sel by (simp add: read_value_def)
  next
    case (Some x)
    then have "x \<in> set xs" by (rule js_get_seededShuffle_collection)
    then show ?thesis unfolding sel Some by (simp add: read_value_def)
  qed
  have undef: "selectByDate (collection xs) date = Undefined" if "- 5 * n \<le> d"
  proof -
    have "(- 5 * n) div n \<le> d div n" using that n by (rule zdiv_mono1)
    moreover have "(- 5 * n) div n = - 5" using n by (simp only: nonzero_mult_div_cancel_right)
    ultimately have "- 5 \<le> d div n" by simp
    then have "seededShuffle (collection xs) (d div n) = collection (ref_shuffle xs (d div n))"
      by (rule seededShuffle_collection)
    then show ?thesis
      unfolding sel using k(2) by (simp add: js_get_collection read_value_def)
  qed
  show ?thesis
    using pos k sel notnull item undef unfolding n_def d_def by blast
qed


theorem selectByDate_negative_day_witness:
  "[''A'', ''B'', ''C''] \<noteq> []
   \<and> daysSinceEpoch (- 86400000) < 0
   \<and> \<not> int (length [''A'', ''B'', ''C'']) dvd daysSinceEpoch (- 86400000)
   \<and> - 5 * int (length [''A'', ''B'', ''C'']) \<le> daysSinceEpoch (- 86400000)
   \<and> selectByDate (collection [''A'', ''B'', ''C'']) (- 86400000) \<noteq> Null
   \<and> selectByDate (collection [''A'', ''B'', ''C'']) (- 86400000) = Undefined"
proof -
  have d: "daysSinceEpoch (- 86400000) = - 1" by (simp add: daysSinceEpoch_def)
  show ?thesis
    using selectByDate_negative_day [of "[''A'', ''B'', ''C'']" "- 86400000"]
    by (simp add: d)
qed

section \<open>Cycles and permutations\<close>

lemma seededShuffle_permutation:
  assumes "- 5 \<le> seed"
  shows "mset (to_list (seededShuffle (collection xs) seed)) = mset (map Some xs)"
    and "len (seededShuffle (collection xs) seed) = length xs"
  unfolding seededShuffle_collection [OF assms]
  by (simp_all add: ref_shuffle_def mset_ref_fisher_yates)

lemma seededRandom_range:
  assumes "- 5 \<le> random"
  shows "0 \<le> snd (seededRandom random)" and "snd (seededRandom random) < 1"
  using fraction_range [OF lcg_step_range [OF assms]]
  by (simp_all add: seededRandom_def Let_def)

lemma cycle_selects_slot:
  assumes "0 \<le> s" and "k < length xs"
    and "daysSinceEpoch date = s * int (length xs) + int k"
  shows "getCycleSeed date (length xs) = Some s"
    and "getDayInCycle date (length xs) = Some (int k)"
    and "selectByDate (collection xs) date = Item (ref_shuffle xs s ! k)"
proof -
  have len: "0 < length xs" using assms(2) by (cases xs) simp_all
  have "0 \<le> s * int (length xs)" using assms(1) by simp
  then have nonneg: "0 \<le> daysSinceEpoch date" unfolding assms(3) by simp
  show seed: "getCycleSeed date (length xs) = Some s"
    using len assms(2) by (simp add: getCycleSeed_floor assms(3))
  show pos: "getDayInCycle date (length xs) = Some (int k)"
    using len nonneg assms(2) by (simp add: getDayInCycle_nonneg) (simp add: assms(3))
  have "seededShuffle (collection xs) s = collection (ref_shuffle xs s)"
    using assms(1) by (intro seededShuffle_collection) simp
  then show "selectByDate (collection xs) date = Item (ref_shuffle xs s ! k)"
    using len seed pos assms(2)
    by (simp add: selectByDate_def js_get_collection ref_shuffle_def read_value_def)
qed

lemma cycle_covers_collection:
  assumes "0 \<le> s" and "length ds = length xs"
    and "\<forall>k < length xs. daysSinceEpoch (ds ! k) = s * int (length xs) + int k"
  shows "map (\<lambda>date. getDayInCycle date (length xs)) ds = map (\<lambda>k. Some (int k)) [0..<length xs]"
    and "map (selectByDate (collection xs)) ds = map Item (ref_shuffle xs s)"
    and "mset (map (selectByDate (collection xs)) ds) = image_mset Item (mset xs)"
proof -
  show "map (\<lambda>date. getDayInCycle date (length xs)) ds
      = map (\<lambda>k. Some (int k)) [0..<length xs]"
    using assms by (intro nth_equalityI) (simp_all add: cycle_selects_slot(2))
  show sel: "map (selectByDate (collection xs)) ds = map Item (ref_shuffle xs s)"
    using assms
    by (intro nth_equalityI) (simp_all add: ref_shuffle_def cycle_selects_slot(3))
  have "mset (ref_shuffle xs s) = mset xs"
    by (simp add: ref_shuffle_def mset_ref_fisher_yates)
  then show "mset (map (selectByDate (collection xs)) ds) = image_mset Item (mset xs)"
    unfolding sel by simp
qed

text \<open>
  C1 says that for every non-empty collection of length \<open>N\<close> and every cycle seed
  the \<open>N\<close> consecutive dates of that cycle are selected at pairwise distinct
  positions that cover every slot of the permuted collection once. From 1970 on
  they are (\<open>cycle_covers_collection\<close>). In the cycle with seed \<open>-1\<close>, the last
  three days of 1969 for three items, the positions computed are 0, \<open>-2\<close> and
  \<open>-1\<close>, and two of the three selections are \<^verbatim>\<open>undefined\<close>.
\<close>

theorem cycle_before_epoch:
  "map (\<lambda>d. getCycleSeed (d * 86400000) (length [''A'', ''B'', ''C''])) [- 3, - 2, - 1]
     = [Some (- 1), Some (- 1), Some (- 1)]
   \<and> map (\<lambda>d. getDayInCycle (d * 86400000) (length [''A'', ''B'', ''C''])) [- 3, - 2, - 1]
     = [Some 0, Some (- 2), Some (- 1)]
   \<and> map (\<lambda>d. selectByDate (collection [''A'', ''B'', ''C'']) (d * 86400000)) [- 3, - 2, - 1]
     = [Item ''C'', Undefined, Undefined]"
  by code_simp

text \<open>
  C2 says that for every collection and every integer seed the result of
  \<open>seededShuffle\<close> is a permutation of the collection. For every seed from \<open>-5\<close>
  on it is (\<open>seededShuffle_permutation\<close>). With the seed \<open>-6\<close> the generator state
  is negative, the index drawn for two items is \<open>-1\<close>, and the swap writes the
  second item to the key \<open>-1\<close> and \<^verbatim>\<open>undefined\<close> to index 1: the item is no
  longer among the elements.
\<close>

theorem seededShuffle_negative_seed:
  "to_list (seededShuffle (collection [''A'', ''B'']) (- 6)) = [Some ''A'', None]
   \<and> js_get (seededShuffle (collection [''A'', ''B'']) (- 6)) (- 1) = Some ''B''
   \<and> Some ''B'' \<notin> set (to_list (seededShuffle (collection [''A'', ''B'']) (- 6)))"
  by code_simp

text \<open>
  C3 says that \<open>seededShuffle\<close> is the reference algorithm of the specification
  on all inputs, with fractions in \<open>[0, 1)\<close>. For every seed from \<open>-5\<close> on it is
  (\<open>seededShuffle_collection\<close>, \<open>seededRandom_range\<close>). With the seed \<open>-6\<close> the
  code's \<^verbatim>\<open>%\<close> leaves the state at \<open>-6509\<close>, where the modulus of the
  specification gives 226771; the fraction is negative, the index drawn is \<open>-1\<close>
  instead of 1, and the results differ.
\<close>

theorem seededShuffle_differs_from_reference:
  "fst (seededRandom (- 6)) = - 6509
   \<and> ref_step (- 6) = 226771
   \<and> snd (seededRandom (- 6)) < 0
   \<and> \<lfloor>js_mul (snd (seededRandom (- 6))) 2\<rfloor> = - 1
   \<and> \<lfloor>js_mul (ref_fraction (ref_step (- 6))) 2\<rfloor> = 1
   \<and> to_list (seededShuffle (collection [''A'', ''B'']) (- 6)) = [Some ''A'', None]
   \<and> ref_shuffle [''A'', ''B''] (- 6) = [''A'', ''B'']"
  by code_simp

end
